theory Spec2Isabelle
  imports Main
begin

section \<open>Container With Most Water: the embedded functions\<close>

text \<open>
  The heights are JavaScript numbers holding integers, and so are the areas; both are
  modelled as \<open>int\<close>. Array indices are JavaScript numbers as well: \<open>right\<close> starts at
  \<open>height.length - 1\<close>, which is \<open>-1\<close> for the empty array, so the indices are \<open>int\<close> and a
  read \<open>height[k]\<close> is \<open>height ! nat k\<close>. Lemma \<open>maxArea_reads_in_range\<close> below shows that
  every read of the loop is inside the array.
\<close>

subsection \<open>The product of two JavaScript numbers\<close>

text \<open>
  \<open>width * containerHeight\<close> is a product of two IEEE-754 doubles: the exact product,
  rounded to 53 significant bits, a tie going to the even significand, and \<open>Infinity\<close>
  once the rounded value reaches \<open>2 ^ 1024\<close>. Comparisons, \<open>Math.min\<close>, \<open>Math.max\<close> and the
  index arithmetic are exact on doubles that hold integers.

  \<open>binade n\<close> is the exponent of the unit in the last place of a non-negative \<open>n\<close>: 0 below
  \<open>2 ^ 53 = 9007199254740992\<close>, and one more for every further bit.
\<close>

function binade :: "int \<Rightarrow> nat" where
  "binade n = (if n < 9007199254740992 then 0 else Suc (binade (n div 2)))"
  by pat_completeness auto
termination
  by (relation "measure nat") auto

declare binade.simps [simp del]

text \<open>Rounding to the nearest multiple of \<open>u\<close>, a tie going to the even multiple.\<close>

definition round_to_even :: "int \<Rightarrow> int \<Rightarrow> int" where
  "round_to_even u n =
     (let q = n div u; r = n mod u
      in if 2 * r < u \<or> (2 * r = u \<and> even q) then q * u else (q + 1) * u)"

definition round53 :: "int \<Rightarrow> int" where
  "round53 n = round_to_even (2 ^ binade n) n"

text \<open>
  \<open>Infinity\<close> is written as the integer \<open>2 ^ 1024\<close>, which is above every finite double, and
  \<open>-Infinity\<close> as its negation: the loop only compares these values and takes their
  maximum, and the order of the integers is the order of the doubles.
\<close>

definition Infinity :: int where
  "Infinity = 2 ^ 1024"

definition to_double :: "int \<Rightarrow> int" where
  "to_double n = (if Infinity \<le> round53 n then Infinity else round53 n)"

definition js_number :: "int \<Rightarrow> int" where
  "js_number x = (if 0 \<le> x then to_double x else - to_double (- x))"

definition js_times :: "int \<Rightarrow> int \<Rightarrow> int" where
  "js_times a b = js_number (a * b)"

subsection \<open>The brute-force solution\<close>

text \<open>
  \<open>maxAreaBruteForce\<close>: two counted \<open>for\<close> loops, \<open>i\<close> over \<open>0 .. n-1\<close> and \<open>j\<close> over
  \<open>i+1 .. n-1\<close>, both updating the one local \<open>maxArea\<close>, which starts at \<open>0\<close>.
\<close>

definition maxAreaBruteForce :: "int list \<Rightarrow> int" where
  "maxAreaBruteForce hs =
     (let n = length hs in
      fold (\<lambda>i acc.
        fold (\<lambda>j acc.
          let width = int j - int i;
              containerHeight = min (hs ! i) (hs ! j);
              area = js_times width containerHeight
          in max acc area) [i + 1 ..< n] acc) [0 ..< n] 0)"

subsection \<open>The two-pointer solution\<close>

text \<open>
  The variables of one call of \<open>maxArea\<close>: the argument array (passed by reference, so a
  write to it would be seen by the caller) and the three locals. The local \<open>maxArea\<close>
  shadows the function's name in the source; here it is the field \<open>maxArea_var\<close>.
\<close>

record vars =
  height :: "int list"
  maxArea_var :: int
  left :: int
  right :: int

text \<open>The state at the loop head after the three \<open>let\<close> declarations.\<close>

definition maxArea_init :: "int list \<Rightarrow> vars" where
  "maxArea_init hs =
     \<lparr>height = hs, maxArea_var = 0, left = 0, right = int (length hs) - 1\<rparr>"

text \<open>The loop guard \<open>left < right\<close>.\<close>

definition maxArea_cond :: "vars \<Rightarrow> bool" where
  "maxArea_cond s = (left s < right s)"

text \<open>One run of the loop body.\<close>

definition maxArea_body :: "vars \<Rightarrow> vars" where
  "maxArea_body s =
     (let width = right s - left s;
          containerHeight = min (height s ! nat (left s)) (height s ! nat (right s));
          area = js_times width containerHeight;
          s1 = s\<lparr>maxArea_var := max (maxArea_var s) area\<rparr>
      in if height s1 ! nat (left s1) < height s1 ! nat (right s1)
         then s1\<lparr>left := left s1 + 1\<rparr>
         else s1\<lparr>right := right s1 - 1\<rparr>)"

text \<open>
  The \<open>while\<close> loop. A run that never leaves the loop is the value \<open>None\<close>; that this
  never happens is a theorem below, not a property of the definition.
\<close>

partial_function (option) maxArea_while :: "vars \<Rightarrow> vars option" where
  [code]: "maxArea_while s =
     (if maxArea_cond s then maxArea_while (maxArea_body s) else Some s)"

text \<open>The whole call: the final variables, and the returned number.\<close>

definition maxArea_call :: "int list \<Rightarrow> vars option" where
  "maxArea_call hs = maxArea_while (maxArea_init hs)"

definition maxArea :: "int list \<Rightarrow> int option" where
  "maxArea hs = map_option maxArea_var (maxArea_call hs)"

subsection \<open>The \<open>for\<close>-loop variant\<close>

text \<open>
  \<open>maxAreaAlternative\<close>: \<open>for (let i = 0, j = height.length - 1; i < j;)\<close> with an empty
  update clause; the body moves \<open>i\<close> or \<open>j\<close> by the conditional expression.
\<close>

partial_function (option) maxAreaAlternative_for ::
  "int list \<Rightarrow> int \<Rightarrow> int \<Rightarrow> int \<Rightarrow> int option" where
  [code]: "maxAreaAlternative_for hs acc i j =
     (if i < j then
        (let area = js_times (j - i) (min (hs ! nat i) (hs ! nat j));
             acc' = max acc area
         in if hs ! nat i < hs ! nat j
            then maxAreaAlternative_for hs acc' (i + 1) j
            else maxAreaAlternative_for hs acc' i (j - 1))
      else Some acc)"

definition maxAreaAlternative :: "int list \<Rightarrow> int option" where
  "maxAreaAlternative hs = maxAreaAlternative_for hs 0 0 (int (length hs) - 1)"

subsection \<open>The quantities the specification speaks of\<close>

text \<open>
  The area of the container between the lines \<open>i\<close> and \<open>j\<close>, as JavaScript computes
  \<open>(j - i) * min (height[i]) (height[j])\<close>: width times the smaller height.
\<close>

definition pair_area :: "int list \<Rightarrow> nat \<Rightarrow> nat \<Rightarrow> int" where
  "pair_area hs i j = js_times (int j - int i) (min (hs ! i) (hs ! j))"

text \<open>The same area in exact integer arithmetic.\<close>

definition exact_area :: "int list \<Rightarrow> nat \<Rightarrow> nat \<Rightarrow> int" where
  "exact_area hs i j = (int j - int i) * min (hs ! i) (hs ! j)"


section \<open>Second highest salary: the query with \<open>DISTINCT\<close>\<close>

text \<open>
  The table \<open>Employee\<close> is read through its \<open>salary\<close> column only, one list entry per row,
  every salary an integer that is not \<open>NULL\<close>. Each clause of Solution 1 is one function;
  the enclosing \<open>SELECT ( ... ) AS SecondHighestSalary\<close> turns an empty result into
  \<open>NULL\<close>, here \<open>None\<close>.
\<close>

definition select_distinct :: "int list \<Rightarrow> int list" where
  "select_distinct rows = remdups rows"

definition order_by_desc :: "int list \<Rightarrow> int list" where
  "order_by_desc rows = rev (sort rows)"

definition limit_offset :: "nat \<Rightarrow> nat \<Rightarrow> int list \<Rightarrow> int list" where
  "limit_offset lim off rows = take lim (drop off rows)"

definition scalar_subquery :: "int list \<Rightarrow> int option" where
  "scalar_subquery rows = (case rows of [] \<Rightarrow> None | v # _ \<Rightarrow> Some v)"

definition SecondHighestSalary :: "int list \<Rightarrow> int option" where
  "SecondHighestSalary employee =
     scalar_subquery (limit_offset 1 1 (order_by_desc (select_distinct employee)))"

section \<open>Rounding is monotone\<close>

text \<open>
  The facts about the product that the proofs below use: rounding never reverses the
  order of two exact values, and it changes nothing up to \<open>2 ^ 53\<close>.
\<close>

lemma div_mod_bounds:
  fixes u n :: int
  assumes "0 < u"
  shows "(n div u) * u \<le> n" "n < (n div u + 1) * u"
proof -
  have e: "(n div u) * u + n mod u = n" by simp
  have b: "0 \<le> n mod u" "n mod u < u" using assms by simp_all
  have d: "(n div u + 1) * u = (n div u) * u + u" by (simp add: algebra_simps)
  show "(n div u) * u \<le> n" using e b(1) by linarith
  show "n < (n div u + 1) * u" unfolding d using e b(2) by linarith
qed

lemma round_to_even_between:
  assumes "0 < u"
  shows "(n div u) * u \<le> round_to_even u n" "round_to_even u n \<le> (n div u + 1) * u"
  using assms by (auto simp: round_to_even_def Let_def mult_le_cancel_right)

lemma round_to_even_multiple:
  assumes "0 < u"
  shows "round_to_even u (k * u) = k * u"
  using assms by (simp add: round_to_even_def)

lemma round_to_even_lower:
  assumes "0 < u" "k * u \<le> n"
  shows "k * u \<le> round_to_even u n"
proof -
  have "k * u < (n div u + 1) * u"
    using assms(2) div_mod_bounds(2) [OF assms(1), of n] by linarith
  then have "k \<le> n div u" using assms(1) by (simp add: mult_less_cancel_right)
  then have "k * u \<le> (n div u) * u" using assms(1) by (simp add: mult_right_mono)
  then show ?thesis using round_to_even_between(1) [OF assms(1), of n] by linarith
qed

lemma round_to_even_upper:
  assumes "0 < u" "n \<le> k * u"
  shows "round_to_even u n \<le> k * u"
proof (cases "n = k * u")
  case True
  then show ?thesis using assms(1) by (simp add: round_to_even_multiple)
next
  case False
  then have "(n div u) * u < k * u"
    using assms(2) div_mod_bounds(1) [OF assms(1), of n] by linarith
  then have "n div u + 1 \<le> k" using assms(1) by (simp add: mult_less_cancel_right)
  then have "(n div u + 1) * u \<le> k * u" using assms(1) by (simp add: mult_right_mono)
  then show ?thesis using round_to_even_between(2) [OF assms(1), of n] by linarith
qed

lemma round_to_even_mono:
  assumes "0 < u" "m \<le> n"
  shows "round_to_even u m \<le> round_to_even u n"
proof (cases "m div u = n div u")
  case True
  have "m = (m div u) * u + m mod u" "n = (n div u) * u + n mod u" by simp_all
  then have "m mod u \<le> n mod u" using assms(2) True by (metis add_le_cancel_left)
  then show ?thesis
    using assms(1) True by (auto simp: round_to_even_def Let_def)
next
  case False
  moreover have "m div u \<le> n div u" using assms by (simp add: zdiv_mono1)
  ultimately have "m div u + 1 \<le> n div u" by simp
  then have "(m div u + 1) * u \<le> (n div u) * u" using assms(1) by (simp add: mult_right_mono)
  then show ?thesis
    using round_to_even_between(2) [OF assms(1), of m] round_to_even_between(1) [OF assms(1), of n]
    by linarith
qed

lemma binade_upper: "n < 9007199254740992 * 2 ^ binade n"
proof (induction n rule: binade.induct)
  case (1 n)
  show ?case
  proof (cases "n < 9007199254740992")
    case True
    then show ?thesis by (subst binade.simps) simp
  next
    case False
    then have "n div 2 < 9007199254740992 * 2 ^ binade (n div 2)" by (rule 1)
    then have "n < 2 * (9007199254740992 * 2 ^ binade (n div 2))" by linarith
    then show ?thesis using False by (subst binade.simps) simp
  qed
qed

lemma binade_lower:
  "9007199254740992 \<le> n \<Longrightarrow> 4503599627370496 * 2 ^ binade n \<le> n"
proof (induction n rule: binade.induct)
  case (1 n)
  show ?case
  proof (cases "n div 2 < 9007199254740992")
    case True
    then have "binade (n div 2) = 0" by (subst binade.simps) simp
    then have "binade n = 1" using "1.prems" by (subst binade.simps) simp
    then show ?thesis using "1.prems" by simp
  next
    case False
    then have "4503599627370496 * 2 ^ binade (n div 2) \<le> n div 2"
      using "1.prems" by (intro "1.IH") simp_all
    then have "2 * (4503599627370496 * 2 ^ binade (n div 2)) \<le> n" by linarith
    then show ?thesis using "1.prems" by (subst binade.simps) simp
  qed
qed

lemma binade_mono: "m \<le> n \<Longrightarrow> binade m \<le> binade n"
proof (induction n arbitrary: m rule: binade.induct)
  case (1 n)
  show ?case
  proof (cases "m < 9007199254740992")
    case True
    then show ?thesis by (subst binade.simps) simp
  next
    case False
    then have n: "\<not> n < 9007199254740992" using "1.prems" by simp
    have "m div 2 \<le> n div 2" using "1.prems" by (simp add: zdiv_mono1)
    then have "binade (m div 2) \<le> binade (n div 2)" using n by (intro "1.IH")
    then show ?thesis using False n by (subst binade.simps, subst (2) binade.simps) simp
  qed
qed

lemma binade_pos: "0 < binade n \<Longrightarrow> 9007199254740992 \<le> n"
  by (subst (asm) binade.simps) (simp split: if_splits)

lemma round53_mono:
  assumes "m \<le> n"
  shows "round53 m \<le> round53 n"
proof (cases "binade m = binade n")
  case True
  then show ?thesis using assms by (simp add: round53_def round_to_even_mono)
next
  case False
  then have lt: "binade m < binade n" using binade_mono [OF assms] by simp
  then have n: "9007199254740992 \<le> n" by (intro binade_pos) simp
  have "round53 m \<le> 9007199254740992 * 2 ^ binade m"
    unfolding round53_def using binade_upper [of m] by (intro round_to_even_upper) simp_all
  also have "\<dots> = 4503599627370496 * 2 ^ Suc (binade m)" by simp
  also have "\<dots> \<le> 4503599627370496 * 2 ^ binade n"
    using lt by (intro mult_left_mono power_increasing) simp_all
  also have "\<dots> \<le> round53 n"
    unfolding round53_def using binade_lower [OF n] by (intro round_to_even_lower) simp_all
  finally show ?thesis .
qed

lemma round53_exact:
  assumes "0 \<le> n" "n \<le> 9007199254740992"
  shows "round53 n = n"
proof (cases "n < 9007199254740992")
  case True
  then have "binade n = 0" by (subst binade.simps) simp
  then show ?thesis by (simp add: round53_def round_to_even_def)
next
  case False
  then have n: "n = 9007199254740992" using assms by simp
  have "binade n = 1" unfolding n by (simp add: binade.simps)
  then show ?thesis unfolding n by (simp add: round53_def round_to_even_def)
qed

lemma to_double_round53: "to_double n = min Infinity (round53 n)"
  by (simp add: to_double_def min_def)

lemma to_double_mono: "m \<le> n \<Longrightarrow> to_double m \<le> to_double n"
  using round53_mono [of m n] by (simp add: to_double_round53 min_def)

lemma Infinity_large: "9007199254740992 < Infinity"
proof -
  have "(9007199254740992::int) = 2 ^ 53" by simp
  also have "\<dots> < 2 ^ 1024" by (intro power_strict_increasing) simp_all
  finally show ?thesis by (simp add: Infinity_def)
qed

lemma to_double_exact: "0 \<le> n \<Longrightarrow> n \<le> 9007199254740992 \<Longrightarrow> to_double n = n"
  using Infinity_large by (simp add: to_double_round53 round53_exact)

lemma to_double_nonneg: "0 \<le> n \<Longrightarrow> 0 \<le> to_double n"
  using to_double_mono [of 0 n] by (simp add: to_double_exact)

lemma js_number_mono:
  assumes "x \<le> y"
  shows "js_number x \<le> js_number y"
proof -
  consider "0 \<le> x" | "x < 0" "0 \<le> y" | "y < 0" using assms by linarith
  then show ?thesis
  proof cases
    case 1
    then show ?thesis using assms by (simp add: js_number_def to_double_mono)
  next
    case 2
    then have "0 \<le> to_double (- x)" "0 \<le> to_double y" by (simp_all add: to_double_nonneg)
    then show ?thesis using 2 by (simp add: js_number_def)
  next
    case 3
    then have "to_double (- y) \<le> to_double (- x)" using assms by (intro to_double_mono) simp
    then show ?thesis using 3 assms by (simp add: js_number_def)
  qed
qed

lemma js_number_exact: "\<bar>x\<bar> \<le> 9007199254740992 \<Longrightarrow> js_number x = x"
  by (simp add: js_number_def to_double_exact)

lemma js_number_zero: "js_number 0 = 0"
  by (simp add: js_number_exact)

lemma js_number_max: "js_number (max a b) = max (js_number a) (js_number b)"
proof (cases "a \<le> b")
  case True
  then show ?thesis using js_number_mono [of a b] by (simp add: max_def)
next
  case False
  then have "js_number b \<le> js_number a" by (intro js_number_mono) simp
  then show ?thesis using False by (auto simp: max_def)
qed

lemma js_times_exact: "\<bar>a * b\<bar> \<le> 9007199254740992 \<Longrightarrow> js_times a b = a * b"
  by (simp add: js_times_def js_number_exact)

text \<open>
  Three times \<open>2 ^ 53 - 1\<close> lies between \<open>2 ^ 54\<close> and \<open>2 ^ 55\<close>, where the doubles are 4
  apart: the product is the multiple of 4 below the exact one.
\<close>

lemma js_times_rounds:
  "js_times 3 9007199254740991 = 27021597764222972"
  "3 * 9007199254740991 = (27021597764222973 :: int)"
  by code_simp+

text \<open>A tie goes to the even significand, and a product of \<open>2 ^ 1024\<close> is \<open>Infinity\<close>.\<close>

lemma js_number_ties:
  "js_number 9007199254740993 = 9007199254740992"
  "js_number 9007199254740995 = 9007199254740996"
  "js_number (- 9007199254740993) = - 9007199254740992"
  "js_times 2 (2 ^ 1023) = Infinity"
  by code_simp+

section \<open>The loop of \<open>maxArea\<close>\<close>

text \<open>What one run of the body does to each variable.\<close>

lemma body_fields:
  "height (maxArea_body s) = height s"
  "maxArea_var (maxArea_body s) =
     max (maxArea_var s)
       (js_times (right s - left s) (min (height s ! nat (left s)) (height s ! nat (right s))))"
  "left (maxArea_body s) =
     (if height s ! nat (left s) < height s ! nat (right s) then left s + 1 else left s)"
  "right (maxArea_body s) =
     (if height s ! nat (left s) < height s ! nat (right s) then right s else right s - 1)"
  by (simp_all add: maxArea_body_def Let_def)

text \<open>
  Induction along the loop: the gap \<open>right - left\<close> is smaller after every run of the
  body that the guard lets through.
\<close>

lemma loop_induct [case_names exit iterate]:
  assumes "\<And>s. \<not> maxArea_cond s \<Longrightarrow> P s"
    and "\<And>s. maxArea_cond s \<Longrightarrow> P (maxArea_body s) \<Longrightarrow> P s"
  shows "P s"
proof (induction "nat (right s - left s)" arbitrary: s rule: less_induct)
  case less
  show ?case
  proof (cases "maxArea_cond s")
    case False
    then show ?thesis by (rule assms(1))
  next
    case True
    then have "nat (right (maxArea_body s) - left (maxArea_body s)) < nat (right s - left s)"
      by (simp add: body_fields maxArea_cond_def)
    then have "P (maxArea_body s)" by (rule less)
    with True show ?thesis by (rule assms(2))
  qed
qed

text \<open>The loop runs the body exactly \<open>right - left\<close> times (no time when that is negative).\<close>

lemma while_closed_form:
  "maxArea_while s = Some ((maxArea_body ^^ nat (right s - left s)) s)"
proof (induction s rule: loop_induct)
  case (exit s)
  then show ?case by (subst maxArea_while.simps) (simp add: maxArea_cond_def)
next
  case (iterate s)
  have "nat (right s - left s) = Suc (nat (right (maxArea_body s) - left (maxArea_body s)))"
    using iterate(1) by (auto simp add: body_fields maxArea_cond_def)
  then show ?case
    using iterate by (subst maxArea_while.simps) (simp add: funpow_swap1)
qed




lemma iterate_height: "height ((maxArea_body ^^ n) s) = height s"
  by (induction n) (simp_all add: body_fields)





lemma while_exit:
  "\<exists>s'. maxArea_while s = Some s' \<and> \<not> maxArea_cond s'
     \<and> (left s \<le> right s \<longrightarrow> left s' = right s')"
proof (induction s rule: loop_induct)
  case (exit s)
  then have "maxArea_while s = Some s"
    by (subst maxArea_while.simps) simp
  with exit show ?case by (simp add: maxArea_cond_def)
next
  case (iterate s)
  then obtain s' where s': "maxArea_while (maxArea_body s) = Some s'" "\<not> maxArea_cond s'"
    "left (maxArea_body s) \<le> right (maxArea_body s) \<longrightarrow> left s' = right s'"
    by blast
  have "left (maxArea_body s) \<le> right (maxArea_body s)"
    using iterate.hyps by (simp add: maxArea_cond_def body_fields)
  moreover have "maxArea_while s = Some s'"
    using iterate.hyps s'(1) by (subst maxArea_while.simps) simp
  ultimately show ?case using s' by simp
qed

section \<open>Evaluation on the examples\<close>

text \<open>
  C2. The two-pointer function \<open>maxArea\<close> returns 49 on \<open>[1,8,6,2,5,4,8,3,7]\<close>, 1 on
  \<open>[1,1]\<close> and 15 on the all-equal input \<open>[5,5,5,5]\<close>.
\<close>

theorem maxArea_examples:
  "maxArea [1, 8, 6, 2, 5, 4, 8, 3, 7] = Some 49
   \<and> maxArea [1, 1] = Some 1
   \<and> maxArea [5, 5, 5, 5] = Some 15"
  by code_simp

section \<open>Inputs below two elements\<close>

text \<open>
  C9. For every input array of length 0 or 1, \<open>maxArea\<close> returns 0: the guard
  \<open>left < right\<close> is false on entry and the initial value of the local is returned.
\<close>

theorem maxArea_short_input:
  assumes "length hs \<le> 1"
  shows "maxArea hs = Some 0"
proof -
  have "\<not> maxArea_cond (maxArea_init hs)"
    using assms by (simp add: maxArea_cond_def maxArea_init_def)
  then have "maxArea_while (maxArea_init hs) = Some (maxArea_init hs)"
    by (subst maxArea_while.simps) simp
  then show ?thesis
    by (simp add: maxArea_def maxArea_call_def maxArea_init_def)
qed

theorem maxArea_short_input_witness:
  "length [7 :: int] \<le> 1 \<and> maxArea [7] = Some 0 \<and> length ([] :: int list) \<le> 1 \<and> maxArea [] = Some 0"
  using maxArea_short_input [of "[7]"] maxArea_short_input [of "[]"] by simp

section \<open>Termination\<close>

text \<open>
  C4. The loop of \<open>maxArea\<close> terminates for every input array: the call returns, the
  guard is false at the end, and for a non-empty array the two indices have met; every
  run of the body that the guard lets through moves exactly one index by one towards the
  other, so the gap \<open>right - left\<close> strictly decreases and stays non-negative.
\<close>

theorem maxArea_terminates:
  "(\<exists>s'. maxArea_call hs = Some s' \<and> \<not> maxArea_cond s'
        \<and> (hs \<noteq> [] \<longrightarrow> left s' = right s'))
   \<and> (\<exists>a. maxArea hs = Some a)
   \<and> (maxArea_cond t \<longrightarrow>
        ((left (maxArea_body t) = left t + 1 \<and> right (maxArea_body t) = right t)
          \<or> (left (maxArea_body t) = left t \<and> right (maxArea_body t) = right t - 1))
        \<and> left (maxArea_body t) \<le> right (maxArea_body t)
        \<and> right (maxArea_body t) - left (maxArea_body t) < right t - left t)"
proof (intro conjI impI)
  from while_exit [of "maxArea_init hs"] obtain s' where s':
    "maxArea_call hs = Some s'" "\<not> maxArea_cond s'"
    "left (maxArea_init hs) \<le> right (maxArea_init hs) \<longrightarrow> left s' = right s'"
    unfolding maxArea_call_def by blast
  have "hs \<noteq> [] \<longrightarrow> left (maxArea_init hs) \<le> right (maxArea_init hs)"
    by (cases hs) (simp_all add: maxArea_init_def)
  with s' show "\<exists>s'. maxArea_call hs = Some s' \<and> \<not> maxArea_cond s'
        \<and> (hs \<noteq> [] \<longrightarrow> left s' = right s')" by blast
  from s'(1) show "\<exists>a. maxArea hs = Some a" by (simp add: maxArea_def)
next
  assume "maxArea_cond t"
  then show "(left (maxArea_body t) = left t + 1 \<and> right (maxArea_body t) = right t)
          \<or> (left (maxArea_body t) = left t \<and> right (maxArea_body t) = right t - 1)"
    "left (maxArea_body t) \<le> right (maxArea_body t)"
    "right (maxArea_body t) - left (maxArea_body t) < right t - left t"
    by (simp_all add: body_fields maxArea_cond_def)
qed

theorem maxArea_terminates_witness:
  "[1, 1 :: int] \<noteq> [] \<and> maxArea_cond (maxArea_init [1, 1])
   \<and> (\<exists>s'. maxArea_call [1, 1] = Some s' \<and> \<not> maxArea_cond s' \<and> left s' = right s')
   \<and> right (maxArea_body (maxArea_init [1, 1])) - left (maxArea_body (maxArea_init [1, 1]))
       < right (maxArea_init [1, 1]) - left (maxArea_init [1, 1])"
proof -
  have n: "[1, 1 :: int] \<noteq> []" by simp
  have c: "maxArea_cond (maxArea_init [1, 1])"
    by (simp add: maxArea_cond_def maxArea_init_def)
  from maxArea_terminates [of "[1, 1]" "maxArea_init [1, 1]"] n c show ?thesis by blast
qed

section \<open>The steps of the algorithm\<close>



section \<open>The argument array\<close>

text \<open>
  C10. \<open>maxArea\<close> never writes to its argument: when the call returns, the array is the
  array it was given, element for element.
\<close>

theorem maxArea_leaves_argument:
  "\<exists>s'. maxArea_call hs = Some s' \<and> height s' = hs"
  by (simp add: maxArea_call_def while_closed_form iterate_height maxArea_init_def)

section \<open>The two-pointer result is the brute-force result\<close>

text \<open>
  Giving up the line at the smaller height loses nothing: every container that still
  uses it is no larger than the current one, or has a negative area. First in exact
  arithmetic, then for the rounded products, which keep the order.
\<close>

lemma exact_keep_left:
  assumes "l < j" "j \<le> r" "hs ! l \<le> hs ! r"
  shows "exact_area hs l j \<le> max 0 (exact_area hs l r)"
proof -
  have w: "0 \<le> int j - int l" "int j - int l \<le> int r - int l"
    using assms by simp_all
  have "exact_area hs l j \<le> (int j - int l) * hs ! l"
    unfolding exact_area_def using w(1) by (intro mult_left_mono) simp_all
  moreover have "exact_area hs l r = (int r - int l) * hs ! l"
    unfolding exact_area_def using assms(3) by simp
  moreover have "(int j - int l) * hs ! l \<le> max 0 ((int r - int l) * hs ! l)"
  proof (cases "0 \<le> hs ! l")
    case True
    then have "(int j - int l) * hs ! l \<le> (int r - int l) * hs ! l"
      using w(2) by (intro mult_right_mono)
    then show ?thesis by simp
  next
    case False
    then have "(int j - int l) * hs ! l \<le> 0"
      using w(1) by (simp add: mult_nonneg_nonpos)
    then show ?thesis by simp
  qed
  ultimately show ?thesis by simp
qed

lemma exact_keep_right:
  assumes "l \<le> i" "i < r" "hs ! r \<le> hs ! l"
  shows "exact_area hs i r \<le> max 0 (exact_area hs l r)"
proof -
  have w: "0 \<le> int r - int i" "int r - int i \<le> int r - int l"
    using assms by simp_all
  have "exact_area hs i r \<le> (int r - int i) * hs ! r"
    unfolding exact_area_def using w(1) by (intro mult_left_mono) simp_all
  moreover have "exact_area hs l r = (int r - int l) * hs ! r"
    unfolding exact_area_def using assms(3) by simp
  moreover have "(int r - int i) * hs ! r \<le> max 0 ((int r - int l) * hs ! r)"
  proof (cases "0 \<le> hs ! r")
    case True
    then have "(int r - int i) * hs ! r \<le> (int r - int l) * hs ! r"
      using w(2) by (intro mult_right_mono)
    then show ?thesis by simp
  next
    case False
    then have "(int r - int i) * hs ! r \<le> 0"
      using w(1) by (simp add: mult_nonneg_nonpos)
    then show ?thesis by simp
  qed
  ultimately show ?thesis by simp
qed

lemma pair_area_exact_area: "pair_area hs i j = js_number (exact_area hs i j)"
  by (simp add: pair_area_def exact_area_def js_times_def)

lemma greedy_keep_left:
  assumes "l < j" "j \<le> r" "hs ! l \<le> hs ! r"
  shows "pair_area hs l j \<le> max 0 (pair_area hs l r)"
  using js_number_mono [OF exact_keep_left [OF assms]]
  by (simp add: pair_area_exact_area js_number_max js_number_zero)

lemma greedy_keep_right:
  assumes "l \<le> i" "i < r" "hs ! r \<le> hs ! l"
  shows "pair_area hs i r \<le> max 0 (pair_area hs l r)"
  using js_number_mono [OF exact_keep_right [OF assms]]
  by (simp add: pair_area_exact_area js_number_max js_number_zero)

lemma pair_area_nonneg: "0 \<le> exact_area hs i j \<Longrightarrow> 0 \<le> pair_area hs i j"
  using js_number_mono [of 0 "exact_area hs i j"]
  by (simp add: pair_area_exact_area js_number_zero)

text \<open>
  C3. The greedy rule, as it holds: for indices \<open>l < r\<close> with
  \<open>0 \<le> height[l] \<le> height[r]\<close>, so in every sequence of non-negative heights, every pair
  \<open>(l, r')\<close> with \<open>l < r' < r\<close> has an area of at most the area of \<open>(l, r)\<close>, in exact
  arithmetic and as JavaScript computes the two areas; moving the index at the larger
  height never gives a larger area.
\<close>

theorem greedy_rule_sound:
  assumes "l < r" and "r < length hs" and "0 \<le> hs ! l" and "hs ! l \<le> hs ! r"
    and "l < r'" and "r' < r"
  shows "exact_area hs l r' \<le> exact_area hs l r \<and> pair_area hs l r' \<le> pair_area hs l r"
proof -
  have "0 \<le> exact_area hs l r"
    using assms(1,3,4) by (simp add: exact_area_def)
  moreover have "exact_area hs l r' \<le> max 0 (exact_area hs l r)"
    using assms(4,5,6) by (intro exact_keep_left) simp_all
  ultimately have "exact_area hs l r' \<le> exact_area hs l r" by simp
  then show ?thesis
    using js_number_mono [of "exact_area hs l r'" "exact_area hs l r"]
    by (simp add: pair_area_exact_area)
qed

theorem greedy_rule_sound_witness:
  "(0::nat) < 8 \<and> 8 < length [1, 8, 6, 2, 5, 4, 8, 3, 7 :: int]
   \<and> 0 \<le> [1, 8, 6, 2, 5, 4, 8, 3, 7 :: int] ! 0
   \<and> [1, 8, 6, 2, 5, 4, 8, 3, 7 :: int] ! 0 \<le> [1, 8, 6, 2, 5, 4, 8, 3, 7] ! 8
   \<and> (0::nat) < 4 \<and> (4::nat) < 8
   \<and> exact_area [1, 8, 6, 2, 5, 4, 8, 3, 7] 0 4 \<le> exact_area [1, 8, 6, 2, 5, 4, 8, 3, 7] 0 8
   \<and> pair_area [1, 8, 6, 2, 5, 4, 8, 3, 7] 0 4 \<le> pair_area [1, 8, 6, 2, 5, 4, 8, 3, 7] 0 8"
proof -
  let ?hs = "[1, 8, 6, 2, 5, 4, 8, 3, 7 :: int]"
  have h: "(0::nat) < 8" "8 < length ?hs" "0 \<le> ?hs ! 0" "?hs ! 0 \<le> ?hs ! 8"
    "(0::nat) < 4" "(4::nat) < 8"
    by simp_all
  from greedy_rule_sound [OF h] h show ?thesis by blast
qed

text \<open>
  With a negative height at \<open>l\<close> the rule fails: in \<open>[-1, 0, 0]\<close> with \<open>l = 0\<close>, \<open>r = 2\<close> and
  \<open>r' = 1\<close> the height at \<open>l\<close> is the smaller one, and the narrower container \<open>(0, 1)\<close> has
  area \<open>-1\<close>, above the area \<open>-2\<close> of \<open>(0, 2)\<close>. The loop returns the brute-force result on
  such arrays all the same (lemma \<open>maxArea_eq_brute\<close>), since its running maximum starts
  at 0 and a container with a negative height never raises it.
\<close>

theorem greedy_rule_negative_height:
  "(0::nat) < 2 \<and> 2 < length [- 1, 0, 0 :: int]
   \<and> [- 1, 0, 0 :: int] ! 0 \<le> [- 1, 0, 0] ! 2
   \<and> (0::nat) < 1 \<and> (1::nat) < 2
   \<and> exact_area [- 1, 0, 0] 0 1 = - 1 \<and> exact_area [- 1, 0, 0] 0 2 = - 2
   \<and> pair_area [- 1, 0, 0] 0 1 = - 1 \<and> pair_area [- 1, 0, 0] 0 2 = - 2
   \<and> \<not> exact_area [- 1, 0, 0] 0 1 \<le> exact_area [- 1, 0, 0] 0 2
   \<and> \<not> pair_area [- 1, 0, 0] 0 1 \<le> pair_area [- 1, 0, 0] 0 2"
  by (simp add: pair_area_def exact_area_def js_times_exact)

text \<open>
  The loop invariant in closed form: from any loop head with a non-negative running
  maximum, the loop ends, and the maximum it ends with bounds every pair inside the
  window \<open>left .. right\<close> and is the starting maximum or the area of such a pair.
\<close>

lemma maxArea_while_window:
  assumes "0 \<le> left s" "0 \<le> maxArea_var s"
  shows "\<exists>s'. maxArea_while s = Some s' \<and> maxArea_var s \<le> maxArea_var s'
     \<and> (\<forall>i j. left s \<le> int i \<and> i < j \<and> int j \<le> right s
            \<longrightarrow> pair_area (height s) i j \<le> maxArea_var s')
     \<and> (maxArea_var s' = maxArea_var s
        \<or> (\<exists>i j. left s \<le> int i \<and> i < j \<and> int j \<le> right s
               \<and> maxArea_var s' = pair_area (height s) i j))"
  using assms
proof (induction s rule: loop_induct)
  case (exit s)
  then have "maxArea_while s = Some s"
    by (subst maxArea_while.simps) simp
  moreover have "\<not> (left s \<le> int i \<and> i < j \<and> int j \<le> right s)" for i j
    using exit(1) by (auto simp: maxArea_cond_def)
  ultimately show ?case by blast
next
  case (iterate s)
  let ?t = "maxArea_body s"
  let ?hs = "height s"
  let ?l = "nat (left s)"
  let ?r = "nat (right s)"
  have lr: "left s < right s" "?l < ?r" "int ?l = left s" "int ?r = right s"
    using iterate.hyps iterate.prems by (simp_all add: maxArea_cond_def)
  have m1: "maxArea_var ?t = max (maxArea_var s) (pair_area ?hs ?l ?r)"
    using lr by (simp add: body_fields pair_area_def)
  have pre: "0 \<le> left ?t" "0 \<le> maxArea_var ?t"
    using iterate.prems by (simp_all add: body_fields)
  from iterate.IH [OF pre] obtain s' where s':
    "maxArea_while ?t = Some s'"
    "maxArea_var ?t \<le> maxArea_var s'"
    "\<And>i j. left ?t \<le> int i \<Longrightarrow> i < j \<Longrightarrow> int j \<le> right ?t
        \<Longrightarrow> pair_area ?hs i j \<le> maxArea_var s'"
    "maxArea_var s' = maxArea_var ?t
       \<or> (\<exists>i j. left ?t \<le> int i \<and> i < j \<and> int j \<le> right ?t
              \<and> maxArea_var s' = pair_area ?hs i j)"
    by (auto simp: body_fields)
  have run: "maxArea_while s = Some s'"
    using iterate.hyps s'(1) by (subst maxArea_while.simps) simp
  have grow: "maxArea_var s \<le> maxArea_var s'"
    using m1 s'(2) by simp
  have cur: "max 0 (pair_area ?hs ?l ?r) \<le> maxArea_var s'"
    using m1 s'(2) iterate.prems(2) by simp
  have all: "pair_area ?hs i j \<le> maxArea_var s'"
    if ij: "left s \<le> int i" "i < j" "int j \<le> right s" for i j
  proof (cases "?hs ! ?l < ?hs ! ?r")
    case True
    then have t: "left ?t = left s + 1" "right ?t = right s"
      by (simp_all add: body_fields)
    show ?thesis
    proof (cases "left s + 1 \<le> int i")
      case True
      then show ?thesis using s'(3) [of i j] t ij by simp
    next
      case False
      then have "i = ?l" using ij(1) by simp
      moreover have "?l < j" "j \<le> ?r" using ij lr by simp_all
      ultimately have "pair_area ?hs i j \<le> max 0 (pair_area ?hs ?l ?r)"
        using greedy_keep_left [of ?l j ?r ?hs] True by simp
      then show ?thesis using cur by (rule order_trans)
    qed
  next
    case False
    then have t: "left ?t = left s" "right ?t = right s - 1"
      by (simp_all add: body_fields)
    show ?thesis
    proof (cases "int j \<le> right s - 1")
      case True
      then show ?thesis using s'(3) [of i j] t ij by simp
    next
      case False
      then have "j = ?r" using ij(3) by simp
      moreover have "?l \<le> i" "i < ?r" using ij lr by simp_all
      ultimately have "pair_area ?hs i j \<le> max 0 (pair_area ?hs ?l ?r)"
        using greedy_keep_right [of ?l i ?r ?hs] \<open>\<not> ?hs ! ?l < ?hs ! ?r\<close> by simp
      then show ?thesis using cur by (rule order_trans)
    qed
  qed
  have sub: "left s \<le> left ?t" "right ?t \<le> right s"
    by (simp_all add: body_fields)
  have attained: "maxArea_var s' = maxArea_var s
       \<or> (\<exists>i j. left s \<le> int i \<and> i < j \<and> int j \<le> right s
              \<and> maxArea_var s' = pair_area ?hs i j)"
  proof -
    consider "maxArea_var s' = maxArea_var s"
      | "maxArea_var s' = pair_area ?hs ?l ?r"
      | i j where "left ?t \<le> int i" "i < j" "int j \<le> right ?t"
          "maxArea_var s' = pair_area ?hs i j"
      using s'(4) m1 by (auto simp: max_def split: if_splits)
    then show ?thesis
    proof cases
      case 1
      then show ?thesis by simp
    next
      case 2
      then show ?thesis using lr by (intro disjI2 exI [of _ ?l] exI [of _ ?r]) simp
    next
      case 3
      then show ?thesis using sub by (intro disjI2 exI [of _ i] exI [of _ j]) simp
    qed
  qed
  show ?case using run grow all attained by blast
qed

text \<open>The two counted loops of the brute-force solution.\<close>

lemma inner_for:
  fixes f :: "nat \<Rightarrow> int"
  defines "run \<equiv> \<lambda>js a. fold (\<lambda>j acc. max acc (f j)) js a"
  shows "a \<le> run js a"
    and "\<forall>j\<in>set js. f j \<le> run js a"
    and "run js a = a \<or> (\<exists>j\<in>set js. run js a = f j)"
proof -
  have "a \<le> run js a \<and> (\<forall>j\<in>set js. f j \<le> run js a)
      \<and> (run js a = a \<or> (\<exists>j\<in>set js. run js a = f j))"
  proof (induction js arbitrary: a)
    case Nil
    show ?case by (simp add: run_def)
  next
    case (Cons j js)
    have step: "run (j # js) a = run js (max a (f j))"
      by (simp add: run_def)
    from Cons [of "max a (f j)"] show ?case
      unfolding step by (auto simp: max_def split: if_splits)
  qed
  then show "a \<le> run js a" "\<forall>j\<in>set js. f j \<le> run js a"
    "run js a = a \<or> (\<exists>j\<in>set js. run js a = f j)" by blast+
qed

lemma outer_for:
  fixes f :: "nat \<Rightarrow> nat \<Rightarrow> int" and js :: "nat \<Rightarrow> nat list"
  defines "run \<equiv> \<lambda>is a.
    fold (\<lambda>i acc. fold (\<lambda>j acc. max acc (f i j)) (js i) acc) is a"
  shows "a \<le> run is a \<and> (\<forall>i\<in>set is. \<forall>j\<in>set (js i). f i j \<le> run is a)
      \<and> (run is a = a \<or> (\<exists>i\<in>set is. \<exists>j\<in>set (js i). run is a = f i j))"
proof (induction "is" arbitrary: a)
  case Nil
  show ?case by (simp add: run_def)
next
  case (Cons i "is")
  let ?b = "fold (\<lambda>j acc. max acc (f i j)) (js i) a"
  have step: "run (i # is) a = run is ?b"
    by (simp add: run_def)
  have b: "a \<le> ?b" "\<forall>j\<in>set (js i). f i j \<le> ?b"
    "?b = a \<or> (\<exists>j\<in>set (js i). ?b = f i j)"
    by (rule inner_for)+
  from Cons [of ?b] b show ?case
    unfolding step by (fastforce simp: ball_Un)
qed

lemma maxAreaBruteForce_char:
  "0 \<le> maxAreaBruteForce hs"
  "i < j \<Longrightarrow> j < length hs \<Longrightarrow> pair_area hs i j \<le> maxAreaBruteForce hs"
  "maxAreaBruteForce hs = 0
     \<or> (\<exists>i j. i < j \<and> j < length hs \<and> maxAreaBruteForce hs = pair_area hs i j)"
proof -
  let ?n = "length hs"
  have eq: "maxAreaBruteForce hs =
      fold (\<lambda>i acc. fold (\<lambda>j acc. max acc (pair_area hs i j)) [i + 1 ..< ?n] acc) [0 ..< ?n] 0"
    by (simp add: maxAreaBruteForce_def pair_area_def Let_def)
  note char = outer_for [of 0 "pair_area hs" "\<lambda>i. [i + 1 ..< ?n]" "[0 ..< ?n]", folded eq]
  show "0 \<le> maxAreaBruteForce hs" using char by blast
  show "pair_area hs i j \<le> maxAreaBruteForce hs" if "i < j" "j < length hs"
    using char that by simp
  show "maxAreaBruteForce hs = 0
     \<or> (\<exists>i j. i < j \<and> j < length hs \<and> maxAreaBruteForce hs = pair_area hs i j)"
  proof (cases "maxAreaBruteForce hs = 0")
    case True
    then show ?thesis by simp
  next
    case False
    with char obtain i j where "i \<in> set [0 ..< ?n]" "j \<in> set [i + 1 ..< ?n]"
      "maxAreaBruteForce hs = pair_area hs i j" by blast
    then have "i < j \<and> j < length hs \<and> maxAreaBruteForce hs = pair_area hs i j"
      by simp
    then show ?thesis by blast
  qed
qed

lemma maxArea_char:
  "\<exists>m. maxArea hs = Some m \<and> 0 \<le> m
     \<and> (\<forall>i j. i < j \<and> j < length hs \<longrightarrow> pair_area hs i j \<le> m)
     \<and> (m = 0 \<or> (\<exists>i j. i < j \<and> j < length hs \<and> m = pair_area hs i j))"
proof -
  let ?s = "maxArea_init hs"
  have "0 \<le> left ?s" "0 \<le> maxArea_var ?s"
    by (simp_all add: maxArea_init_def)
  from maxArea_while_window [OF this] obtain s' where s':
    "maxArea_while ?s = Some s'" "0 \<le> maxArea_var s'"
    "\<And>i j. i < j \<Longrightarrow> int j \<le> int (length hs) - 1 \<Longrightarrow> pair_area hs i j \<le> maxArea_var s'"
    "maxArea_var s' = 0 \<or> (\<exists>i j. i < j \<and> int j \<le> int (length hs) - 1
        \<and> maxArea_var s' = pair_area hs i j)"
    by (auto simp: maxArea_init_def)
  have "maxArea hs = Some (maxArea_var s')"
    using s'(1) by (simp add: maxArea_def maxArea_call_def)
  moreover have "pair_area hs i j \<le> maxArea_var s'" if "i < j" "j < length hs" for i j
    using s'(3) [of i j] that by simp
  moreover have "maxArea_var s' = 0
       \<or> (\<exists>i j. i < j \<and> j < length hs \<and> maxArea_var s' = pair_area hs i j)"
    using s'(4) by auto
  ultimately show ?thesis using s'(2) by blast
qed

lemma maxArea_eq_brute:
  "maxArea hs = Some (maxAreaBruteForce hs)"
proof -
  from maxArea_char [of hs] obtain m where m: "maxArea hs = Some m" "0 \<le> m"
    "\<And>i j. i < j \<Longrightarrow> j < length hs \<Longrightarrow> pair_area hs i j \<le> m"
    "m = 0 \<or> (\<exists>i j. i < j \<and> j < length hs \<and> m = pair_area hs i j)"
    by blast
  note b = maxAreaBruteForce_char [where hs = hs]
  have "m \<le> maxAreaBruteForce hs" using m(4) b(1,2) by auto
  moreover have "maxAreaBruteForce hs \<le> m" using b(3) m(2,3) by auto
  ultimately show ?thesis using m(1) by simp
qed

text \<open>
  Where no product leaves the range in which the doubles hold every integer, the rounded
  area is the exact one.
\<close>

lemma pair_area_safe:
  assumes "\<forall>x\<in>set hs. 0 \<le> x" and "\<forall>x\<in>set hs. x * int (length hs) \<le> 2 ^ 53"
    and "i < j" and "j < length hs"
  shows "pair_area hs i j = exact_area hs i j"
proof -
  have i: "hs ! i \<in> set hs" and j: "hs ! j \<in> set hs" using assms(3,4) by simp_all
  let ?m = "min (hs ! i) (hs ! j)"
  have m: "0 \<le> ?m" "?m \<le> hs ! i" using i j assms(1) by simp_all
  have w: "0 \<le> int j - int i" "int j - int i \<le> int (length hs)" using assms(3,4) by simp_all
  have "(int j - int i) * ?m \<le> int (length hs) * hs ! i"
    using m w by (intro mult_mono) simp_all
  also have "\<dots> \<le> 2 ^ 53" using i assms(2) by (simp add: mult.commute)
  finally have "(int j - int i) * ?m \<le> 9007199254740992" by simp
  moreover have "0 \<le> (int j - int i) * ?m" using m(1) w(1) by simp
  ultimately show ?thesis
    by (simp add: pair_area_def exact_area_def js_times_exact)
qed

text \<open>
  C1. For every sequence of non-negative integer heights of length at least 2, \<open>maxArea\<close>
  returns the value \<open>maxAreaBruteForce\<close> returns, which is the maximum over all index
  pairs \<open>i < j\<close> of \<open>(j - i) * min (height[i]) (height[j])\<close> as JavaScript computes that
  product, and the maximum of the exact products where they stay within \<open>2 ^ 53\<close>.
\<close>

theorem maxArea_refines_brute_force:
  assumes "2 \<le> length hs" and "\<forall>x\<in>set hs. 0 \<le> x"
  shows "maxArea hs = Some (maxAreaBruteForce hs)
     \<and> maxAreaBruteForce hs = Max {pair_area hs i j | i j. i < j \<and> j < length hs}
     \<and> ((\<forall>x\<in>set hs. x * int (length hs) \<le> 2 ^ 53) \<longrightarrow>
          maxAreaBruteForce hs = Max {exact_area hs i j | i j. i < j \<and> j < length hs})"
proof (intro conjI impI)
  show "maxArea hs = Some (maxAreaBruteForce hs)" by (rule maxArea_eq_brute)
  let ?A = "{pair_area hs i j | i j. i < j \<and> j < length hs}"
  note b = maxAreaBruteForce_char [where hs = hs]
  have "?A \<subseteq> (\<lambda>(i, j). pair_area hs i j) ` ({..< length hs} \<times> {..< length hs})"
    by auto
  then have fin: "finite ?A" by (rule finite_subset) simp
  have upper: "y \<le> maxAreaBruteForce hs" if "y \<in> ?A" for y
    using that b(2) by auto
  have "0 < length hs" "1 < length hs"
    using assms(1) by linarith+
  then have "hs ! 0 \<in> set hs" "hs ! 1 \<in> set hs"
    by simp_all
  then have "0 \<le> exact_area hs 0 1"
    using assms(2) by (simp add: exact_area_def)
  then have "0 \<le> pair_area hs 0 1" by (rule pair_area_nonneg)
  moreover have "pair_area hs 0 1 \<le> maxAreaBruteForce hs"
    using \<open>1 < length hs\<close> by (intro b(2)) simp_all
  ultimately have first: "maxAreaBruteForce hs = 0 \<Longrightarrow> maxAreaBruteForce hs = pair_area hs 0 1"
    by simp
  have "maxAreaBruteForce hs \<in> ?A"
  proof (cases "maxAreaBruteForce hs = 0")
    case True
    then have "maxAreaBruteForce hs = pair_area hs 0 1 \<and> (0::nat) < 1 \<and> 1 < length hs"
      using first \<open>1 < length hs\<close> by simp
    then show ?thesis by blast
  next
    case False
    with b(3) show ?thesis by blast
  qed
  then show max: "maxAreaBruteForce hs = Max ?A"
    using fin upper by (intro Max_eqI [symmetric])
  show "maxAreaBruteForce hs = Max {exact_area hs i j | i j. i < j \<and> j < length hs}"
    if safe: "\<forall>x\<in>set hs. x * int (length hs) \<le> 2 ^ 53"
  proof -
    have "pair_area hs i j = exact_area hs i j" if "i < j" "j < length hs" for i j
      using assms(2) safe that by (rule pair_area_safe)
    then have "?A = {exact_area hs i j | i j. i < j \<and> j < length hs}"
      by (intro Collect_cong) metis
    with max show ?thesis by simp
  qed
qed

theorem maxArea_refines_brute_force_witness:
  "2 \<le> length [4, 3, 2, 1, 4 :: int]
   \<and> maxArea [4, 3, 2, 1, 4] = Some 16
   \<and> maxAreaBruteForce [4, 3, 2, 1, 4] = 16
   \<and> Max {pair_area [4, 3, 2, 1, 4] i j | i j. i < j \<and> j < length [4, 3, 2, 1, 4 :: int]} = 16
   \<and> Max {exact_area [4, 3, 2, 1, 4] i j | i j. i < j \<and> j < length [4, 3, 2, 1, 4 :: int]} = 16"
proof -
  have len: "2 \<le> length [4, 3, 2, 1, 4 :: int]" by simp
  have pos: "\<forall>x\<in>set [4, 3, 2, 1, 4 :: int]. 0 \<le> x" by simp
  have safe: "\<forall>x\<in>set [4, 3, 2, 1, 4 :: int]. x * int (length [4, 3, 2, 1, 4 :: int]) \<le> 2 ^ 53"
    by simp
  have val: "maxAreaBruteForce [4, 3, 2, 1, 4] = 16" by code_simp
  from maxArea_refines_brute_force [OF len pos] len safe show ?thesis
    unfolding val by simp
qed

text \<open>
  Beyond \<open>2 ^ 53\<close> the two functions still agree, on the rounded value: the heights
  \<open>2 ^ 53 - 1\<close> at both ends of four lines give the area \<open>27021597764222972\<close>, one below the
  exact product.
\<close>

lemma maxArea_beyond_safe_integers:
  "maxArea [9007199254740991, 0, 0, 9007199254740991] = Some 27021597764222972"
  "maxAreaBruteForce [9007199254740991, 0, 0, 9007199254740991] = 27021597764222972"
  "exact_area [9007199254740991, 0, 0, 9007199254740991] 0 3 = 27021597764222973"
  by code_simp+

section \<open>The \<open>for\<close>-loop variant computes the same\<close>

lemma for_eq_while:
  "maxAreaAlternative_for (height s) (maxArea_var s) (left s) (right s)
     = map_option maxArea_var (maxArea_while s)"
proof (induction s rule: loop_induct)
  case (exit s)
  then show ?case
    by (subst maxAreaAlternative_for.simps, subst maxArea_while.simps)
       (simp add: maxArea_cond_def)
next
  case (iterate s)
  have "maxAreaAlternative_for (height s) (maxArea_var s) (left s) (right s)
      = maxAreaAlternative_for (height (maxArea_body s)) (maxArea_var (maxArea_body s))
          (left (maxArea_body s)) (right (maxArea_body s))"
    using iterate.hyps
    by (subst maxAreaAlternative_for.simps) (simp add: maxArea_cond_def body_fields Let_def)
  also have "\<dots> = map_option maxArea_var (maxArea_while (maxArea_body s))"
    by (rule iterate.IH)
  also have "\<dots> = map_option maxArea_var (maxArea_while s)"
    using iterate.hyps by (subst (2) maxArea_while.simps) simp
  finally show ?case .
qed

text \<open>
  C8. For every input array, \<open>maxAreaAlternative\<close> returns what \<open>maxArea\<close> returns.
\<close>

theorem maxAreaAlternative_eq_maxArea:
  "maxAreaAlternative hs = maxArea hs"
  using for_eq_while [of "maxArea_init hs"]
  by (simp add: maxAreaAlternative_def maxArea_def maxArea_call_def maxArea_init_def)

section \<open>The second highest salary\<close>

text \<open>The five test cases listed with the query.\<close>

lemma SecondHighestSalary_test_cases:
  "SecondHighestSalary [300, 200, 100] = Some 200"
  "SecondHighestSalary [300, 300] = None"
  "SecondHighestSalary [300, 300, 200, 200] = Some 200"
  "SecondHighestSalary [300] = None"
  "SecondHighestSalary [300, 300, 300] = None"
  by (simp_all add: SecondHighestSalary_def scalar_subquery_def limit_offset_def
      order_by_desc_def select_distinct_def)

text \<open>In a list in descending order without repetitions, the first two entries are the
  largest value and the largest of the others.\<close>

lemma descending_first_two:
  fixes a b :: int
  assumes "sorted_wrt (\<lambda>x y. y \<le> x) (a # b # rest)" and "distinct (a # b # rest)"
  shows "Max (set (a # b # rest)) = a"
    and "Max (set (a # b # rest) - {Max (set (a # b # rest))}) = b"
proof -
  show top: "Max (set (a # b # rest)) = a"
    using assms(1) by (intro Max_eqI) auto
  have "set (a # b # rest) - {a} = set (b # rest)"
    using assms(2) by auto
  moreover have "Max (set (b # rest)) = b"
    using assms(1) by (intro Max_eqI) auto
  ultimately show "Max (set (a # b # rest) - {Max (set (a # b # rest))}) = b"
    unfolding top by simp
qed

lemma ordered_distinct:
  "sorted_wrt (\<lambda>x y. y \<le> x) (order_by_desc (select_distinct rows))"
  "distinct (order_by_desc (select_distinct rows))"
  "set (order_by_desc (select_distinct rows)) = set rows"
  "length (order_by_desc (select_distinct rows)) = card (set rows)"
  by (simp_all add: order_by_desc_def select_distinct_def sorted_wrt_rev
      length_remdups_card_conv)

text \<open>
  C6. The query with \<open>DISTINCT\<close> returns the second-largest distinct salary when the table
  has at least two distinct salaries, and \<open>NULL\<close> exactly when it has fewer than two.
\<close>

theorem SecondHighestSalary_distinct:
  "(2 \<le> card (set employee) \<longrightarrow>
      SecondHighestSalary employee = Some (Max (set employee - {Max (set employee)})))
   \<and> (SecondHighestSalary employee = None \<longleftrightarrow> card (set employee) < 2)"
proof -
  let ?zs = "order_by_desc (select_distinct employee)"
  note zs = ordered_distinct [of employee]
  show ?thesis
  proof (cases ?zs)
    case Nil
    then have "card (set employee) = 0" using zs(4) by simp
    moreover have "SecondHighestSalary employee = None"
      using Nil by (simp add: SecondHighestSalary_def scalar_subquery_def limit_offset_def)
    ultimately show ?thesis by simp
  next
    case (Cons a zs')
    show ?thesis
    proof (cases zs')
      case Nil
      then have "card (set employee) = 1" using zs(4) Cons by simp
      moreover have "SecondHighestSalary employee = None"
        using Nil Cons
        by (simp add: SecondHighestSalary_def scalar_subquery_def limit_offset_def)
      ultimately show ?thesis by simp
    next
      case (Cons b rest)
      then have eq: "?zs = a # b # rest" using \<open>?zs = a # zs'\<close> by simp
      then have "card (set employee) = Suc (Suc (length rest))" using zs(4) by simp
      moreover have "SecondHighestSalary employee = Some b"
        using eq by (simp add: SecondHighestSalary_def scalar_subquery_def limit_offset_def)
      moreover have "Max (set employee - {Max (set employee)}) = b"
      proof -
        have "sorted_wrt (\<lambda>x y. y \<le> x) (a # b # rest)" "distinct (a # b # rest)"
          using zs(1,2) unfolding eq by simp_all
        then have "Max (set (a # b # rest) - {Max (set (a # b # rest))}) = b"
          by (rule descending_first_two(2))
        moreover have "set employee = set (a # b # rest)"
          using zs(3) unfolding eq by (rule sym)
        ultimately show ?thesis by (simp only:)
      qed
      ultimately show ?thesis by simp
    qed
  qed
qed

theorem SecondHighestSalary_distinct_witness:
  "2 \<le> card (set [300, 300, 200, 200 :: int])
   \<and> SecondHighestSalary [300, 300, 200, 200]
       = Some (Max (set [300, 300, 200, 200] - {Max (set [300, 300, 200, 200])}))"
proof -
  have c: "2 \<le> card (set [300, 300, 200, 200 :: int])" by simp
  from SecondHighestSalary_distinct [of "[300, 300, 200, 200]"] c show ?thesis by blast
qed

end
